theory Spec2Isabelle
  imports Complex_Main
begin

section \<open>Data model (types.ts)\<close>

text \<open>
  JavaScript numbers are modelled exactly: timestamps, the time-to-live, the capacity and
  the result count \<open>k\<close> are integers (\<open>Date.now()\<close> is an integral number of
  milliseconds), vector components and similarities are real numbers. Every exception
  the source throws is a value of \<open>error\<close>.
\<close>

datatype error =
    EmbeddingDimensionMismatch int nat
  | VectorsMustHaveSameDimension
  | InvalidArrayLength
  | EmbedFnFailure string
  | NotAFunction

record 'v CacheEntry =
  key :: string
  entry_value :: 'v
  embedding :: "real list"
  timestamp :: int
  expiresAt :: int

record 'v SimilarityResult =
  result_key :: string
  result_value :: 'v
  similarity :: real

record Counters =
  hits :: nat
  misses :: nat
  similarHits :: nat

record CacheStats = Counters +
  size_stat :: nat
  hitRate :: real

text \<open>\<open>CacheConfig\<close>: every option may be left out by the caller.\<close>

record CacheConfig =
  maxSize_opt :: "int option"
  ttl_opt :: "int option"
  similarityThreshold_opt :: "real option"
  embeddingDimension_opt :: "int option"
  embedFn_opt :: "(string \<Rightarrow> error + real list) option"

text \<open>\<open>Required<CacheConfig>\<close>: the configuration the cache keeps.\<close>

record RequiredConfig =
  maxSize :: int
  ttl :: int
  similarityThreshold :: real
  embeddingDimension :: int
  embedFn :: "string \<Rightarrow> error + real list"

text \<open>
  The class \<open>SemanticCache\<close>. The JavaScript \<open>Map\<close> iterates in insertion order, so
  \<open>entries\<close> is an association list in that order.
\<close>

record 'v SemanticCache =
  entries :: "(string \<times> 'v CacheEntry) list"
  config :: RequiredConfig
  stats :: Counters

section \<open>The insertion-ordered Map\<close>

definition map_get :: "'k \<Rightarrow> ('k \<times> 'e) list \<Rightarrow> 'e option" where
  "map_get k m = map_of m k"

definition map_has :: "'k \<Rightarrow> ('k \<times> 'e) list \<Rightarrow> bool" where
  "map_has k m = (map_of m k \<noteq> None)"

text \<open>\<open>Map.set\<close>: an existing key keeps its position, a new key goes to the end.\<close>

fun map_set :: "'k \<Rightarrow> 'e \<Rightarrow> ('k \<times> 'e) list \<Rightarrow> ('k \<times> 'e) list" where
  "map_set k e [] = [(k, e)]"
| "map_set k e ((k', e') # m) =
     (if k' = k then (k, e) # m else (k', e') # map_set k e m)"

fun map_delete :: "'k \<Rightarrow> ('k \<times> 'e) list \<Rightarrow> ('k \<times> 'e) list" where
  "map_delete k [] = []"
| "map_delete k ((k', e') # m) =
     (if k' = k then m else (k', e') # map_delete k m)"

section \<open>Vector utilities (vector.ts)\<close>

fun cosine_loop :: "real list \<Rightarrow> real list \<Rightarrow> real \<times> real \<times> real \<Rightarrow> real \<times> real \<times> real" where
  "cosine_loop (x # a) (y # b) (dotProduct, magnitudeA, magnitudeB) =
     cosine_loop a b (dotProduct + x * y, magnitudeA + x * x, magnitudeB + y * y)"
| "cosine_loop _ _ acc = acc"

definition cosineSimilarity :: "real list \<Rightarrow> real list \<Rightarrow> error + real" where
  "cosineSimilarity a b =
     (if length a \<noteq> length b then Inl VectorsMustHaveSameDimension
      else case cosine_loop a b (0, 0, 0) of (dotProduct, magnitudeA, magnitudeB) \<Rightarrow>
        let magnitude = sqrt magnitudeA * sqrt magnitudeB
        in if magnitude = 0 then Inr 0 else Inr (dotProduct / magnitude))"

text \<open>
  The scan of \<open>findKNearest\<close> over \<open>entries.values()\<close>. An expired entry is skipped
  before its similarity is computed; a vector of another length than the query makes
  \<open>cosineSimilarity\<close> throw, which ends the scan. One reading \<open>now\<close> of the clock
  serves the whole scan.
\<close>

fun scan :: "real list \<Rightarrow> 'v CacheEntry list \<Rightarrow> real \<Rightarrow> int \<Rightarrow> 'v SimilarityResult list
    \<Rightarrow> error + 'v SimilarityResult list" where
  "scan queryEmbedding [] threshold now results = Inr results"
| "scan queryEmbedding (entry # es) threshold now results =
     (if expiresAt entry < now then scan queryEmbedding es threshold now results
      else case cosineSimilarity queryEmbedding (embedding entry) of
        Inl err \<Rightarrow> Inl err
      | Inr sim \<Rightarrow>
          if sim \<ge> threshold
          then scan queryEmbedding es threshold now
                 (results @ [\<lparr>result_key = key entry, result_value = entry_value entry,
                              similarity = sim\<rparr>])
          else scan queryEmbedding es threshold now results)"

text \<open>
  \<open>Array.prototype.slice(0, k)\<close>: a negative end counts from the end of the array.
\<close>

definition slice0 :: "'a list \<Rightarrow> int \<Rightarrow> 'a list" where
  "slice0 xs k =
     (if k < 0 then take (nat (max (int (length xs) + k) 0)) xs
      else take (nat (min k (int (length xs)))) xs)"

text \<open>
  \<open>Array.prototype.sort\<close> is stable; with the comparator \<open>b.similarity - a.similarity\<close>
  it is the stable sort by descending similarity.
\<close>

definition sort_desc :: "'v SimilarityResult list \<Rightarrow> 'v SimilarityResult list" where
  "sort_desc results = sort_key (\<lambda>r. - similarity r) results"

definition findKNearest :: "real list \<Rightarrow> (string \<times> 'v CacheEntry) list \<Rightarrow> int \<Rightarrow> real \<Rightarrow> int
    \<Rightarrow> error + 'v SimilarityResult list" where
  "findKNearest queryEmbedding ents k threshold now =
     (case scan queryEmbedding (map snd ents) threshold now [] of
        Inl err \<Rightarrow> Inl err
      | Inr results \<Rightarrow> Inr (slice0 (sort_desc results) k))"

definition normalize :: "real list \<Rightarrow> real list" where
  "normalize vector =
     (let magnitude = sqrt (foldl (\<lambda>sum val. sum + val * val) 0 vector)
      in if magnitude = 0 then vector else map (\<lambda>val. val / magnitude) vector)"

text \<open>
  \<open>String.prototype.toLowerCase\<close> on code units below 256: the letters A to Z and the
  Latin-1 capitals (U+00C0 to U+00DE without the multiplication sign) move up by 32.
\<close>

definition toLowerCase :: "string \<Rightarrow> string" where
  "toLowerCase text =
     map (\<lambda>c. let n = (of_char c :: nat)
               in if (65 \<le> n \<and> n \<le> 90) \<or> (192 \<le> n \<and> n \<le> 222 \<and> n \<noteq> 215)
                  then char_of (n + 32) else c) text"

text \<open>
  The loop of \<open>defaultEmbedding\<close>. With \<open>dimension = 0\<close> the index is \<open>NaN\<close> and the
  assignment adds a property to the array without changing any element.
\<close>

fun embed_loop :: "string \<Rightarrow> nat \<Rightarrow> nat \<Rightarrow> real list \<Rightarrow> real list" where
  "embed_loop [] i dimension vec = vec"
| "embed_loop (c # cs) i dimension vec =
     (let charCode = (of_char c :: nat)
      in embed_loop cs (i + 1) dimension
           (if dimension = 0 then vec
            else let idx = charCode mod dimension
                 in vec[idx := vec ! idx + sin (real (i * charCode)) * (1 / 10)]))"

definition defaultEmbedding :: "string \<Rightarrow> int \<Rightarrow> error + real list" where
  "defaultEmbedding text dimension =
     (if dimension < 0 then Inl InvalidArrayLength
      else Inr (normalize (embed_loop (toLowerCase text) 0 (nat dimension)
                             (replicate (nat dimension) 0))))"

section \<open>The cache (cache.ts)\<close>

definition constructor :: "CacheConfig option \<Rightarrow> 'v SemanticCache" where
  "constructor cfg =
     \<lparr>entries = [],
      config =
        \<lparr>maxSize = (case Option.bind cfg maxSize_opt of Some m \<Rightarrow> m | None \<Rightarrow> 1000),
         ttl = (case Option.bind cfg ttl_opt of Some t \<Rightarrow> t | None \<Rightarrow> 3600000),
         similarityThreshold =
           (case Option.bind cfg similarityThreshold_opt of Some t \<Rightarrow> t | None \<Rightarrow> 85 / 100),
         embeddingDimension =
           (case Option.bind cfg embeddingDimension_opt of Some d \<Rightarrow> d | None \<Rightarrow> 384),
         embedFn =
           (case Option.bind cfg embedFn_opt of Some f \<Rightarrow> f
            | None \<Rightarrow> (\<lambda>text. defaultEmbedding text
                (case Option.bind cfg embeddingDimension_opt of Some d \<Rightarrow> d | None \<Rightarrow> 384)))\<rparr>,
      stats = \<lparr>hits = 0, misses = 0, similarHits = 0\<rparr>\<rparr>"

text \<open>Every operation that reads the clock takes the reading \<open>now\<close> as an argument.\<close>

definition get :: "string \<Rightarrow> int \<Rightarrow> 'v SemanticCache \<Rightarrow> 'v option \<times> 'v SemanticCache" where
  "get k now s =
     (case map_get k (entries s) of
        None \<Rightarrow> (None, s\<lparr>stats := (stats s)\<lparr>misses := misses (stats s) + 1\<rparr>\<rparr>)
      | Some entry \<Rightarrow>
          if expiresAt entry < now
          then (None, s\<lparr>entries := map_delete k (entries s),
                        stats := (stats s)\<lparr>misses := misses (stats s) + 1\<rparr>\<rparr>)
          else (Some (entry_value entry),
                s\<lparr>stats := (stats s)\<lparr>hits := hits (stats s) + 1\<rparr>\<rparr>))"

text \<open>
  \<open>evictOldest\<close>: the loop keeps the first key of strictly smallest timestamp
  (\<open>None\<close> stands for the initial \<open>null\<close> and \<open>Infinity\<close>); the final test
  \<open>if (oldestKey)\<close> is JavaScript truthiness, false for \<open>null\<close> and for the empty string.
\<close>

fun oldest_loop :: "(string \<times> 'v CacheEntry) list \<Rightarrow> string option \<times> int option
    \<Rightarrow> string option \<times> int option" where
  "oldest_loop [] acc = acc"
| "oldest_loop ((k, entry) # m) (oldestKey, oldestTimestamp) =
     (if (case oldestTimestamp of None \<Rightarrow> True | Some t \<Rightarrow> timestamp entry < t)
      then oldest_loop m (Some k, Some (timestamp entry))
      else oldest_loop m (oldestKey, oldestTimestamp))"

definition evictOldest :: "(string \<times> 'v CacheEntry) list \<Rightarrow> (string \<times> 'v CacheEntry) list" where
  "evictOldest m =
     (case fst (oldest_loop m (None, None)) of
        None \<Rightarrow> m
      | Some oldestKey \<Rightarrow> if oldestKey \<noteq> [] then map_delete oldestKey m else m)"

definition set_cache :: "string \<Rightarrow> 'v \<Rightarrow> real list option \<Rightarrow> int \<Rightarrow> 'v SemanticCache
    \<Rightarrow> (error + unit) \<times> 'v SemanticCache" where
  "set_cache k v emb now s =
     (case (case emb of
              Some e \<Rightarrow>
                if int (length e) \<noteq> embeddingDimension (config s)
                then Inl (EmbeddingDimensionMismatch (embeddingDimension (config s)) (length e))
                else Inr e
            | None \<Rightarrow> embedFn (config s) k) of
        Inl err \<Rightarrow> (Inl err, s)
      | Inr embeddingVector \<Rightarrow>
          let entry = \<lparr>key = k, entry_value = v, embedding = embeddingVector,
                       timestamp = now, expiresAt = now + ttl (config s)\<rparr>;
              m = (if int (length (entries s)) \<ge> maxSize (config s) \<and> \<not> map_has k (entries s)
                   then evictOldest (entries s) else entries s)
          in (Inr (), s\<lparr>entries := map_set k entry m\<rparr>))"

datatype query = Text string | Vector "real list"

definition getSimilar :: "query \<Rightarrow> int option \<Rightarrow> real option \<Rightarrow> int \<Rightarrow> 'v SemanticCache
    \<Rightarrow> (error + 'v SimilarityResult list) \<times> 'v SemanticCache" where
  "getSimilar q k_opt threshold_opt now s =
     (case (case q of Text text \<Rightarrow> embedFn (config s) text | Vector v \<Rightarrow> Inr v) of
        Inl err \<Rightarrow> (Inl err, s)
      | Inr queryEmbedding \<Rightarrow>
          let k = (case k_opt of None \<Rightarrow> 5 | Some k \<Rightarrow> k);
              similarityThreshold =
                (case threshold_opt of None \<Rightarrow> similarityThreshold (config s) | Some t \<Rightarrow> t)
          in (case findKNearest queryEmbedding (entries s) k similarityThreshold now of
                Inl err \<Rightarrow> (Inl err, s)
              | Inr results \<Rightarrow>
                  (Inr results,
                   if length results > 0
                   then s\<lparr>stats := (stats s)\<lparr>similarHits := similarHits (stats s) + length results\<rparr>\<rparr>
                   else s)))"

definition has :: "string \<Rightarrow> int \<Rightarrow> 'v SemanticCache \<Rightarrow> bool \<times> 'v SemanticCache" where
  "has k now s =
     (case map_get k (entries s) of
        None \<Rightarrow> (False, s)
      | Some entry \<Rightarrow>
          if expiresAt entry < now
          then (False, s\<lparr>entries := map_delete k (entries s)\<rparr>)
          else (True, s))"

definition delete :: "string \<Rightarrow> 'v SemanticCache \<Rightarrow> bool \<times> 'v SemanticCache" where
  "delete k s = (map_has k (entries s), s\<lparr>entries := map_delete k (entries s)\<rparr>)"

definition clear :: "'v SemanticCache \<Rightarrow> 'v SemanticCache" where
  "clear s = s\<lparr>entries := [], stats := \<lparr>hits = 0, misses = 0, similarHits = 0\<rparr>\<rparr>"

text \<open>
  The class declares a field \<open>stats\<close> and a method \<open>stats()\<close> of the same name.
  The constructor assigns \<open>this.stats\<close>, and this own property of the instance hides
  the method of the prototype: on every instance \<open>cache.stats\<close> is the record of
  counters, and the call \<open>cache.stats()\<close> throws a \<open>TypeError\<close>.
  \<open>stats_method\<close> is the body of the hidden method, which reports
  \<open>this.entries.size\<close> as the size; \<open>stats_call\<close> is the call on an instance.
\<close>

definition stats_method :: "'v SemanticCache \<Rightarrow> CacheStats" where
  "stats_method s =
     (let totalRequests = hits (stats s) + misses (stats s);
          rate = (if totalRequests > 0 then real (hits (stats s)) / real totalRequests else 0)
      in \<lparr>hits = hits (stats s), misses = misses (stats s),
          similarHits = similarHits (stats s), size_stat = length (entries s), hitRate = rate\<rparr>)"

definition stats_call :: "'v SemanticCache \<Rightarrow> error + CacheStats" where
  "stats_call s = Inl NotAFunction"

section \<open>Operation sequences\<close>

text \<open>
  A caller drives the cache by a sequence of operations, each at its own reading of the
  clock. \<open>run\<close> applies such a sequence; the states it yields from a freshly
  constructed cache are the reachable states.
\<close>

datatype 'v operation =
    Get string
  | Set string 'v "real list option"
  | GetSimilar query "int option" "real option"
  | Has string
  | Delete string
  | Clear

fun apply_operation :: "'v operation \<Rightarrow> int \<Rightarrow> 'v SemanticCache \<Rightarrow> 'v SemanticCache" where
  "apply_operation (Get k) now s = snd (get k now s)"
| "apply_operation (Set k v emb) now s = snd (set_cache k v emb now s)"
| "apply_operation (GetSimilar q k_opt threshold_opt) now s =
     snd (getSimilar q k_opt threshold_opt now s)"
| "apply_operation (Has k) now s = snd (has k now s)"
| "apply_operation (Delete k) now s = snd (delete k s)"
| "apply_operation Clear now s = clear s"

fun run :: "('v operation \<times> int) list \<Rightarrow> 'v SemanticCache \<Rightarrow> 'v SemanticCache" where
  "run [] s = s"
| "run ((op, now) # ops) s = run ops (apply_operation op now s)"

section \<open>Concrete caches used as test inputs\<close>

text \<open>
  A cache of capacity 2 with a time-to-live of 10 over vectors of dimension 2, whose
  embedding function maps every text to the unit vector \<open>[1, 0]\<close>.
\<close>

definition ex_config :: CacheConfig where
  "ex_config =
     \<lparr>maxSize_opt = Some 2, ttl_opt = Some 10, similarityThreshold_opt = Some 0,
      embeddingDimension_opt = Some 2, embedFn_opt = Some (\<lambda>text. Inr [1, 0])\<rparr>"

definition ex_cache :: "nat SemanticCache" where
  "ex_cache = constructor (Some ex_config)"

text \<open>The same cache after \<open>set('a', 7)\<close> at time 0: the entry expires at 10.\<close>

definition ex_one :: "nat SemanticCache" where
  "ex_one = run [(Set ''a'' 7 None, 0)] ex_cache"

text \<open>... and after \<open>set('b', 8, [0, 1])\<close> at time 0 as well.\<close>

definition ex_two :: "nat SemanticCache" where
  "ex_two = run [(Set ''a'' 7 None, 0), (Set ''b'' 8 (Some [0, 1]), 0)] ex_cache"

text \<open>A cache of capacity 1.\<close>

definition ex_small :: "nat SemanticCache" where
  "ex_small = constructor (Some (ex_config\<lparr>maxSize_opt := Some 1\<rparr>))"

text \<open>A cache whose embedding function returns vectors of length 1 for dimension 2.\<close>

definition ex_short :: "nat SemanticCache" where
  "ex_short = constructor (Some (ex_config\<lparr>embedFn_opt := Some (\<lambda>text. Inr [1])\<rparr>))"

lemmas ex_defs =
  ex_config_def ex_cache_def ex_one_def ex_two_def ex_small_def ex_short_def constructor_def

lemmas op_defs =
  get_def has_def delete_def clear_def set_cache_def getSimilar_def stats_method_def stats_call_def
  findKNearest_def evictOldest_def map_get_def map_has_def cosineSimilarity_def
  sort_desc_def slice0_def

section \<open>The Map operations\<close>

lemma map_of_map_set: "map_of (map_set k e m) k' = (if k' = k then Some e else map_of m k')"
  by (induction m) auto

lemma map_fst_map_set_present: "map_of m k \<noteq> None \<Longrightarrow> map fst (map_set k e m) = map fst m"
  by (induction m) auto

lemma length_map_set_present: "map_of m k \<noteq> None \<Longrightarrow> length (map_set k e m) = length m"
  by (induction m) auto

lemma length_map_set_absent: "map_of m k = None \<Longrightarrow> length (map_set k e m) = Suc (length m)"
  by (induction m) auto

lemma length_map_delete_present: "map_of m k \<noteq> None \<Longrightarrow> Suc (length (map_delete k m)) = length m"
  by (induction m) auto

lemma length_map_delete_absent: "map_of m k = None \<Longrightarrow> map_delete k m = m"
  by (induction m) auto

lemma map_of_map_delete_other: "k' \<noteq> k \<Longrightarrow> map_of (map_delete k m) k' = map_of m k'"
  by (induction m) auto

lemma map_fst_map_delete: "map fst (map_delete k m) = remove1 k (map fst m)"
  by (induction m) auto

lemma map_fst_map_set:
  "map fst (map_set k e m) = (if k \<in> set (map fst m) then map fst m else map fst m @ [k])"
  by (induction m) force+

lemma distinct_map_delete: "distinct (map fst m) \<Longrightarrow> distinct (map fst (map_delete k m))"
  by (simp add: map_fst_map_delete)

lemma distinct_map_set: "distinct (map fst m) \<Longrightarrow> distinct (map fst (map_set k e m))"
  by (simp add: map_fst_map_set)

lemma map_of_map_delete_same: "distinct (map fst m) \<Longrightarrow> map_of (map_delete k m) k = None"
proof -
  assume "distinct (map fst m)"
  then have "k \<notin> set (remove1 k (map fst m))" by simp
  then have "k \<notin> fst ` set (map_delete k m)"
    using map_fst_map_delete[of k m] by (metis list.set_map)
  then show ?thesis by (simp add: map_of_eq_None_iff)
qed

section \<open>Exact round trip\<close>

lemma set_cache_ok_entries:
  assumes "fst (set_cache k v emb now s) = Inr ()"
  shows "\<exists>vec. map_get k (entries (snd (set_cache k v emb now s))) =
     Some \<lparr>key = k, entry_value = v, embedding = vec, timestamp = now, expiresAt = now + ttl (config s)\<rparr>"
  using assms
  by (auto simp: set_cache_def map_get_def map_of_map_set Let_def split: option.splits sum.splits if_splits)

lemma get_live:
  assumes "map_get k (entries s) = Some entry" "\<not> expiresAt entry < t"
  shows "fst (get k t s) = Some (entry_value entry)"
  using assms by (simp add: get_def)

text \<open>
  Claim C1. For every key \<open>k\<close> and value \<open>v\<close>, \<open>set(k, v)\<close> at time \<open>now\<close>
  succeeds whenever the embedding function returns a vector for \<open>k\<close>, and
  \<open>get(k)\<close> at any time \<open>t\<close> before \<open>now + ttl\<close> then returns exactly \<open>v\<close>.
\<close>

theorem C1_set_get_roundtrip:
  assumes "embedFn (config s) k = Inr vec" and "t < now + ttl (config s)"
  shows "fst (set_cache k v None now s) = Inr () \<and>
         fst (get k t (snd (set_cache k v None now s))) = Some v"
proof -
  have ok: "fst (set_cache k v None now s) = Inr ()"
    using assms(1) by (simp add: set_cache_def Let_def)
  from set_cache_ok_entries[OF ok] obtain vec' where
    e: "map_get k (entries (snd (set_cache k v None now s))) =
     Some \<lparr>key = k, entry_value = v, embedding = vec', timestamp = now, expiresAt = now + ttl (config s)\<rparr>"
    by blast
  have "fst (get k t (snd (set_cache k v None now s))) = Some v"
    using get_live[OF e] assms(2) by simp
  with ok show ?thesis by simp
qed

theorem C1_set_get_roundtrip_witness:
  "embedFn (config ex_cache) ''q'' = Inr [1, 0] \<and> (9::int) < 0 + ttl (config ex_cache) \<and>
   fst (set_cache ''q'' (42::nat) None 0 ex_cache) = Inr () \<and>
   fst (get ''q'' 9 (snd (set_cache ''q'' (42::nat) None 0 ex_cache))) = Some 42"
proof -
  have h1: "embedFn (config ex_cache) ''q'' = Inr [1, 0]" by (simp add: ex_defs)
  have h2: "(9::int) < 0 + ttl (config ex_cache)" by (simp add: ex_defs)
  from C1_set_get_roundtrip[OF h1 h2, of 42] h1 h2 show ?thesis by simp
qed

section \<open>Rejected vectors\<close>

text \<open>
  Claim C5. A supplied vector whose length differs from the configured embedding
  dimension makes \<open>set\<close> fail with the dimension-mismatch error, and the cache
  (entries, configuration and counters) is exactly what it was before the call.
\<close>

theorem C5_bad_vector_rejected:
  assumes "int (length bad) \<noteq> embeddingDimension (config s)"
  shows "set_cache k v (Some bad) now s =
     (Inl (EmbeddingDimensionMismatch (embeddingDimension (config s)) (length bad)), s)"
  using assms by (simp add: set_cache_def)

theorem C5_bad_vector_rejected_witness:
  "int (length [1::real]) \<noteq> embeddingDimension (config ex_one) \<and>
   set_cache ''a'' (9::nat) (Some [1]) 5 ex_one = (Inl (EmbeddingDimensionMismatch 2 1), ex_one) \<and>
   map_get ''a'' (entries ex_one) =
     Some \<lparr>key = ''a'', entry_value = 7, embedding = [1, 0], timestamp = 0, expiresAt = 10\<rparr>"
proof -
  have h: "int (length [1::real]) \<noteq> embeddingDimension (config ex_one)"
    by (simp add: ex_defs op_defs)
  have d: "embeddingDimension (config ex_one) = 2" by (simp add: ex_defs op_defs)
  have e: "map_get ''a'' (entries ex_one) =
     Some \<lparr>key = ''a'', entry_value = 7, embedding = [1, 0], timestamp = 0, expiresAt = 10\<rparr>"
    by (simp add: ex_defs op_defs)
  from C5_bad_vector_rejected[OF h, of "''a''" 9 5] h d e show ?thesis by simp
qed

section \<open>The similarity scan\<close>

lemma scan_acc:
  "scan q es th now acc =
     (case scan q es th now [] of Inl err \<Rightarrow> Inl err | Inr rs \<Rightarrow> Inr (acc @ rs))"
proof (induction es arbitrary: acc)
  case Nil
  then show ?case by simp
next
  case (Cons e es)
  note IH = Cons.IH
  show ?case
  proof (cases "expiresAt e < now")
    case True
    then show ?thesis using IH[of acc] by simp
  next
    case False
    show ?thesis
    proof (cases "cosineSimilarity q (embedding e)")
      case (Inl err)
      with False show ?thesis by simp
    next
      case (Inr sim)
      let ?r = "\<lparr>result_key = key e, result_value = entry_value e, similarity = sim\<rparr>"
      show ?thesis
      proof (cases "th \<le> sim")
        case True
        with False Inr IH[of "acc @ [?r]"] IH[of "[?r]"] show ?thesis
          by (simp split: sum.splits)
      next
        case False2: False
        with False Inr IH[of acc] show ?thesis by simp
      qed
    qed
  qed
qed

lemma scan_skip_expired:
  assumes "map_of m k = Some entry" and "expiresAt entry < now"
  shows "scan q (map snd (map_delete k m)) th now acc = scan q (map snd m) th now acc"
  using assms
proof (induction m arbitrary: acc)
  case Nil
  then show ?case by simp
next
  case (Cons p m)
  obtain k' e' where p: "p = (k', e')" by (cases p)
  show ?case
  proof (cases "k' = k")
    case True
    with Cons.prems p show ?thesis by simp
  next
    case False
    with Cons.prems p have "map_of m k = Some entry" by simp
    from Cons.IH[OF this Cons.prems(2)] False p show ?thesis
      by (simp split: sum.splits)
  qed
qed

lemma scan_sound:
  assumes "scan q es th now acc = Inr rs" and "r \<in> set rs"
  shows "r \<in> set acc \<or>
     (\<exists>e\<in>set es. \<not> expiresAt e < now \<and> cosineSimilarity q (embedding e) = Inr (similarity r)
        \<and> th \<le> similarity r \<and> result_key r = key e \<and> result_value r = entry_value e)"
  using assms
proof (induction es arbitrary: acc)
  case Nil
  then show ?case by simp
next
  case (Cons e es)
  show ?case
  proof (cases "expiresAt e < now")
    case True
    with Cons.prems have "scan q es th now acc = Inr rs" by simp
    from Cons.IH[OF this Cons.prems(2)] show ?thesis by auto
  next
    case False
    then obtain sim where sim: "cosineSimilarity q (embedding e) = Inr sim"
      using Cons.prems(1) by (cases "cosineSimilarity q (embedding e)") auto
    show ?thesis
    proof (cases "th \<le> sim")
      case True
      let ?r = "\<lparr>result_key = key e, result_value = entry_value e, similarity = sim\<rparr>"
      from Cons.prems False sim True have "scan q es th now (acc @ [?r]) = Inr rs" by simp
      from Cons.IH[OF this Cons.prems(2)] False sim True show ?thesis by auto
    next
      case False2: False
      with Cons.prems False sim have "scan q es th now acc = Inr rs" by simp
      from Cons.IH[OF this Cons.prems(2)] show ?thesis by auto
    qed
  qed
qed

lemma scan_keeps_acc:
  assumes "scan q es th now acc = Inr rs" and "r \<in> set acc"
  shows "r \<in> set rs"
  using assms scan_acc[of q es th now acc] by (auto split: sum.splits)

lemma scan_complete:
  assumes "scan q es th now acc = Inr rs" and "e \<in> set es" and "\<not> expiresAt e < now"
    and "cosineSimilarity q (embedding e) = Inr sim" and "th \<le> sim"
  shows "\<lparr>result_key = key e, result_value = entry_value e, similarity = sim\<rparr> \<in> set rs"
  using assms
proof (induction es arbitrary: acc)
  case Nil
  then show ?case by simp
next
  case (Cons x es)
  show ?case
  proof (cases "x = e")
    case True
    let ?r = "\<lparr>result_key = key e, result_value = entry_value e, similarity = sim\<rparr>"
    from Cons.prems True have "scan q es th now (acc @ [?r]) = Inr rs" by simp
    from scan_keeps_acc[OF this] show ?thesis by simp
  next
    case False
    with Cons.prems have mem: "e \<in> set es" by simp
    have "\<exists>acc'. scan q es th now acc' = Inr rs"
      using Cons.prems(1) by (auto split: if_splits sum.splits)
    then obtain acc' where "scan q es th now acc' = Inr rs" ..
    from Cons.IH[OF this mem Cons.prems(3,4,5)] show ?thesis .
  qed
qed

lemma cosineSimilarity_returns:
  "length a = length b \<Longrightarrow> \<exists>sim. cosineSimilarity a b = Inr sim"
  by (cases "cosine_loop a b (0, 0, 0)") (simp add: cosineSimilarity_def Let_def)

lemma scan_returns:
  assumes "\<forall>e\<in>set es. \<not> expiresAt e < now \<longrightarrow> length (embedding e) = length q"
  shows "\<exists>rs. scan q es th now acc = Inr rs"
  using assms
proof (induction es arbitrary: acc)
  case Nil
  then show ?case by simp
next
  case (Cons e es)
  then have IH: "\<And>acc. \<exists>rs. scan q es th now acc = Inr rs" by simp
  show ?case
  proof (cases "expiresAt e < now")
    case True
    then show ?thesis using IH[of acc] by simp
  next
    case False
    with Cons.prems have "length q = length (embedding e)" by simp
    then obtain sim where "cosineSimilarity q (embedding e) = Inr sim"
      using cosineSimilarity_returns by blast
    with False IH show ?thesis by simp
  qed
qed

lemma set_sort_desc: "set (sort_desc rs) = set rs"
  by (simp add: sort_desc_def)

lemma length_sort_desc: "length (sort_desc rs) = length rs"
  by (simp add: sort_desc_def)

lemma sorted_sort_desc: "sorted_wrt (\<lambda>a b. similarity b \<le> similarity a) (sort_desc rs)"
proof -
  have "sorted (map (\<lambda>r. - similarity r) (sort_desc rs))"
    by (simp add: sort_desc_def)
  then show ?thesis
    by (simp add: sorted_wrt_map)
qed

lemma slice0_nonneg: "0 \<le> k \<Longrightarrow> slice0 xs k = take (nat k) xs"
  by (simp add: slice0_def min_def)

lemma slice0_zero: "slice0 xs 0 = []"
  by (simp add: slice0_def)

lemma top_k:
  assumes srt: "sorted_wrt (\<lambda>a b. similarity b \<le> similarity a) xs" and x: "x \<in> set xs"
  shows "x \<in> set (take n xs) \<or> (length (take n xs) = n \<and> (\<forall>r\<in>set (take n xs). similarity x \<le> similarity r))"
proof (cases "x \<in> set (take n xs)")
  case True
  then show ?thesis by simp
next
  case False
  have split: "xs = take n xs @ drop n xs" by simp
  with x False have xd: "x \<in> set (drop n xs)"
    by (metis Un_iff set_append)
  then have "n < length xs" by (cases "n < length xs") auto
  then have len: "length (take n xs) = n" by simp
  from srt have "sorted_wrt (\<lambda>a b. similarity b \<le> similarity a) (take n xs @ drop n xs)" by simp
  then have "\<forall>r\<in>set (take n xs). \<forall>y\<in>set (drop n xs). similarity y \<le> similarity r"
    unfolding sorted_wrt_append by blast
  with xd len show ?thesis by blast
qed



section \<open>Expiry on the read paths\<close>

lemma get_expired:
  assumes "map_get k (entries s) = Some entry" and "expiresAt entry < now"
  shows "get k now s =
     (None, s\<lparr>entries := map_delete k (entries s),
               stats := (stats s)\<lparr>misses := misses (stats s) + 1\<rparr>\<rparr>)"
  using assms by (simp add: get_def)

lemma has_expired:
  assumes "map_get k (entries s) = Some entry" and "expiresAt entry < now"
  shows "has k now s = (False, s\<lparr>entries := map_delete k (entries s)\<rparr>)"
  using assms by (simp add: has_def)

lemma findKNearest_skip_expired:
  assumes "map_get k m = Some entry" and "expiresAt entry < now"
  shows "findKNearest q (map_delete k m) n th now = findKNearest q m n th now"
  using assms scan_skip_expired[of m k entry now q th "[]"]
  by (simp add: findKNearest_def map_get_def)

lemma fst_getSimilar:
  "fst (getSimilar q k_opt th_opt now s) =
     (case (case q of Text text \<Rightarrow> embedFn (config s) text | Vector v \<Rightarrow> Inr v) of
        Inl err \<Rightarrow> Inl err
      | Inr qv \<Rightarrow>
          findKNearest qv (entries s) (case k_opt of None \<Rightarrow> 5 | Some k \<Rightarrow> k)
            (case th_opt of None \<Rightarrow> similarityThreshold (config s) | Some t \<Rightarrow> t) now)"
  by (simp add: getSimilar_def Let_def split: sum.splits)

lemma getSimilar_skip_expired:
  assumes "map_get k (entries s) = Some entry" and "expiresAt entry < now"
  shows "fst (getSimilar q k_opt th_opt now (snd (delete k s))) = fst (getSimilar q k_opt th_opt now s)"
proof -
  have e: "entries (snd (delete k s)) = map_delete k (entries s)"
    and c: "config (snd (delete k s)) = config s"
    by (simp_all add: delete_def)
  show ?thesis
    unfolding fst_getSimilar e c findKNearest_skip_expired[OF assms] ..
qed

lemma getSimilar_entries: "entries (snd (getSimilar q k_opt th_opt now s)) = entries s"
  by (simp add: getSimilar_def Let_def split: sum.splits query.splits)

lemma getSimilar_config: "config (snd (getSimilar q k_opt th_opt now s)) = config s"
  by (simp add: getSimilar_def Let_def split: sum.splits query.splits)

lemma getSimilar_Inr:
  assumes "fst (getSimilar q k_opt th_opt now s) = Inr rs"
  shows "\<exists>qv. (case q of Text text \<Rightarrow> embedFn (config s) text | Vector v \<Rightarrow> Inr v) = Inr qv \<and>
     findKNearest qv (entries s) (case k_opt of None \<Rightarrow> 5 | Some k \<Rightarrow> k)
       (case th_opt of None \<Rightarrow> similarityThreshold (config s) | Some t \<Rightarrow> t) now = Inr rs"
  using assms unfolding fst_getSimilar by (auto split: sum.splits)

lemma findKNearest_Inr:
  assumes "findKNearest qv m n th now = Inr rs"
  shows "\<exists>xs. scan qv (map snd m) th now [] = Inr xs \<and> rs = slice0 (sort_desc xs) n"
  using assms by (auto simp: findKNearest_def split: sum.splits)

text \<open>
  Claim C2, as the code has it. The three read paths test \<open>expiresAt < now\<close>: an
  entry whose \<open>expiresAt\<close> is strictly less than the current time is absent for
  \<open>get\<close> and \<open>has\<close>, and \<open>getSimilar\<close> answers exactly as it does on the store
  without that entry. At \<open>now = expiresAt\<close> the entry is still live.
\<close>

theorem C2_expired_entry_absent:
  assumes "map_get k (entries s) = Some entry" and "expiresAt entry < now"
  shows "fst (get k now s) = None \<and> fst (has k now s) = False \<and>
     fst (getSimilar q k_opt th_opt now s) = fst (getSimilar q k_opt th_opt now (snd (delete k s)))"
  using get_expired[OF assms] has_expired[OF assms] getSimilar_skip_expired[OF assms, of q k_opt th_opt]
  by simp

theorem C2_expired_entry_absent_witness:
  "map_get ''a'' (entries ex_two) =
     Some \<lparr>key = ''a'', entry_value = 7, embedding = [1, 0], timestamp = 0, expiresAt = 10\<rparr> \<and>
   expiresAt \<lparr>key = ''a'', entry_value = 7::nat, embedding = [1, 0], timestamp = 0, expiresAt = 10\<rparr> < 11 \<and>
   fst (get ''a'' 11 ex_two) = None \<and> fst (has ''a'' 11 ex_two) = False \<and>
   fst (getSimilar (Vector [1, 0]) None (Some (-1)) 11 ex_two) =
     fst (getSimilar (Vector [1, 0]) None (Some (-1)) 11 (snd (delete ''a'' ex_two)))"
proof -
  let ?e = "\<lparr>key = ''a'', entry_value = 7::nat, embedding = [1, 0], timestamp = 0, expiresAt = 10\<rparr>"
  have h1: "map_get ''a'' (entries ex_two) = Some ?e" by (simp add: ex_defs op_defs)
  have h2: "expiresAt ?e < 11" by simp
  from C2_expired_entry_absent[OF h1 h2, of "Vector [1, 0]" None "Some (-1)"] h1 h2
  show ?thesis by simp
qed

text \<open>
  At the boundary the claim fails: the entry stored at time 0 with a time-to-live of 10
  has \<open>expiresAt = 10\<close>, and at time 10 all three read paths still return it.
\<close>

theorem C2_boundary_counterexample:
  "map_get ''a'' (entries ex_one) =
     Some \<lparr>key = ''a'', entry_value = 7, embedding = [1, 0], timestamp = 0, expiresAt = 10\<rparr> \<and>
   fst (get ''a'' 10 ex_one) = Some 7 \<and> fst (has ''a'' 10 ex_one) = True \<and>
   fst (getSimilar (Vector [1, 0]) None None 10 ex_one) =
     Inr [\<lparr>result_key = ''a'', result_value = 7, similarity = 1\<rparr>]"
  by (simp add: ex_defs op_defs)

section \<open>Deleting an expired entry\<close>

lemma delete_present:
  assumes "map_get k (entries s) = Some entry"
  shows "fst (delete k s) = True"
    and "Suc (length (entries (snd (delete k s)))) = length (entries s)"
  using assms length_map_delete_present[of "entries s" k]
  by (simp_all add: delete_def map_has_def map_get_def)

text \<open>
  Claim C10, as the code has it. An entry with \<open>expiresAt < now\<close> that is still in
  storage is removed by \<open>delete\<close>, which returns true and leaves one entry fewer,
  although \<open>get\<close> and \<open>has\<close> report the key absent and \<open>getSimilar\<close> answers as it
  does without the entry.
\<close>

theorem C10_delete_expired_returns_true:
  assumes "map_get k (entries s) = Some entry" and "expiresAt entry < now"
  shows "fst (delete k s) = True \<and>
     entries (snd (delete k s)) = map_delete k (entries s) \<and>
     length (entries (snd (delete k s))) + 1 = length (entries s) \<and>
     fst (get k now s) = None \<and> fst (has k now s) = False \<and>
     fst (getSimilar q k_opt th_opt now s) =
       fst (getSimilar q k_opt th_opt now (snd (delete k s)))"
  using delete_present[OF assms(1)] get_expired[OF assms] has_expired[OF assms]
    getSimilar_skip_expired[OF assms, of q k_opt th_opt]
  by (simp add: delete_def)

theorem C10_delete_expired_returns_true_witness:
  "map_get ''a'' (entries ex_two) =
     Some \<lparr>key = ''a'', entry_value = 7, embedding = [1, 0], timestamp = 0, expiresAt = 10\<rparr> \<and>
   expiresAt \<lparr>key = ''a'', entry_value = 7::nat, embedding = [1, 0], timestamp = 0, expiresAt = 10\<rparr> < 12 \<and>
   fst (delete ''a'' ex_two) = True \<and>
   entries (snd (delete ''a'' ex_two)) =
     [(''b'', \<lparr>key = ''b'', entry_value = 8, embedding = [0, 1], timestamp = 0, expiresAt = 10\<rparr>)] \<and>
   length (entries (snd (delete ''a'' ex_two))) + 1 = length (entries ex_two) \<and>
   fst (get ''a'' 12 ex_two) = None \<and> fst (has ''a'' 12 ex_two) = False \<and>
   fst (getSimilar (Text ''a'') (Some 3) None 12 ex_two) =
     fst (getSimilar (Text ''a'') (Some 3) None 12 (snd (delete ''a'' ex_two)))"
proof -
  let ?e = "\<lparr>key = ''a'', entry_value = 7::nat, embedding = [1, 0], timestamp = 0, expiresAt = 10\<rparr>"
  have h1: "map_get ''a'' (entries ex_two) = Some ?e" by (simp add: ex_defs op_defs)
  have h2: "expiresAt ?e < 12" by simp
  have del: "map_delete ''a'' (entries ex_two) =
     [(''b'', \<lparr>key = ''b'', entry_value = 8, embedding = [0, 1], timestamp = 0, expiresAt = 10\<rparr>)]"
    by (simp add: ex_defs op_defs)
  have len: "length (entries ex_two) = 2" by (simp add: ex_defs op_defs)
  from C10_delete_expired_returns_true[OF h1 h2, of "Text ''a''" "Some 3" None] h1 del len
  show ?thesis by simp
qed

text \<open>
  At \<open>now = expiresAt\<close> the claim fails: the entry of \<open>ex_one\<close> has
  \<open>expiresAt = 10\<close>; at time 10 \<open>delete\<close> returns true, but \<open>get\<close>, \<open>has\<close> and
  \<open>getSimilar\<close> still return the entry instead of treating the key as absent.
\<close>

theorem C10_boundary_counterexample:
  "entries ex_one =
     [(''a'', \<lparr>key = ''a'', entry_value = 7, embedding = [1, 0], timestamp = 0, expiresAt = 10\<rparr>)] \<and>
   fst (delete ''a'' ex_one) = True \<and>
   fst (get ''a'' 10 ex_one) = Some 7 \<and> fst (has ''a'' 10 ex_one) = True \<and>
   fst (getSimilar (Vector [1, 0]) (Some 5) (Some 0) 10 ex_one) =
     Inr [\<lparr>result_key = ''a'', result_value = 7, similarity = 1\<rparr>]"
  by (simp add: ex_defs op_defs)

section \<open>Overwriting a key\<close>

lemma set_cache_present:
  assumes "map_has k (entries s)"
  shows "(\<exists>err. set_cache k v emb now s = (Inl err, s)) \<or>
     (\<exists>vec. set_cache k v emb now s =
        (Inr (), s\<lparr>entries := map_set k \<lparr>key = k, entry_value = v, embedding = vec,
              timestamp = now, expiresAt = now + ttl (config s)\<rparr> (entries s)\<rparr>))"
  using assms by (auto simp: set_cache_def Let_def split: option.splits sum.splits)

text \<open>
  \<open>set\<close> on a key that is in the store leaves the number of entries and the sequence
  of keys as they were, leaves the entry of every other key untouched, whatever the
  capacity, and on success puts the new entry in the key's slot.
\<close>

lemma overwrite_in_place:
  assumes "map_has k (entries s)"
  shows "length (entries (snd (set_cache k v emb now s))) = length (entries s) \<and>
     map fst (entries (snd (set_cache k v emb now s))) = map fst (entries s) \<and>
     (\<forall>k'. k' \<noteq> k \<longrightarrow>
        map_get k' (entries (snd (set_cache k v emb now s))) = map_get k' (entries s)) \<and>
     (fst (set_cache k v emb now s) = Inr () \<longrightarrow>
        (\<exists>vec. map_get k (entries (snd (set_cache k v emb now s))) =
           Some \<lparr>key = k, entry_value = v, embedding = vec, timestamp = now,
                 expiresAt = now + ttl (config s)\<rparr>))"
proof -
  from assms have pres: "map_of (entries s) k \<noteq> None" by (simp add: map_has_def)
  from set_cache_present[OF assms, of v emb now]
  consider (fail) err where "set_cache k v emb now s = (Inl err, s)"
    | (ok) vec where "set_cache k v emb now s =
        (Inr (), s\<lparr>entries := map_set k \<lparr>key = k, entry_value = v, embedding = vec,
              timestamp = now, expiresAt = now + ttl (config s)\<rparr> (entries s)\<rparr>)"
    by blast
  then show ?thesis
  proof cases
    case fail
    then show ?thesis by simp
  next
    case ok
    then show ?thesis
      using pres
      by (simp add: length_map_set_present map_fst_map_set_present map_get_def map_of_map_set)
  qed
qed

lemma size_stat_stats_method: "size_stat (stats_method s) = length (entries s)"
  by (simp add: stats_method_def Let_def)

text \<open>
  Claim C6. Overwriting a key of the store should leave \<open>stats().size\<close> unchanged and
  evict nothing. The overwrite itself does so (\<open>overwrite_in_place\<close>), but the size
  cannot be read through \<open>stats()\<close>: in the full cache \<open>ex_two\<close>, \<open>set('a', 9)\<close>
  succeeds and keeps both keys, and \<open>stats()\<close> throws before and after the call.
\<close>

theorem C6_stats_call_throws:
  "map_has ''a'' (entries ex_two) \<and>
   fst (set_cache ''a'' 9 None 3 ex_two) = Inr () \<and>
   map fst (entries (snd (set_cache ''a'' 9 None 3 ex_two))) = [''a'', ''b''] \<and>
   stats_call ex_two = Inl NotAFunction \<and>
   stats_call (snd (set_cache ''a'' 9 None 3 ex_two)) = Inl NotAFunction"
  by (simp add: ex_defs op_defs)

section \<open>Results of the similarity search\<close>

lemma ex_two_entries:
  "entries ex_two =
     [(''a'', \<lparr>key = ''a'', entry_value = 7, embedding = [1, 0], timestamp = 0, expiresAt = 10\<rparr>),
      (''b'', \<lparr>key = ''b'', entry_value = 8, embedding = [0, 1], timestamp = 0, expiresAt = 10\<rparr>)]"
  by (simp add: ex_defs op_defs)

lemma ex_two_config:
  "similarityThreshold (config ex_two) = 0" "embedFn (config ex_two) = (\<lambda>text. Inr [1, 0])"
  by (simp_all add: ex_defs op_defs)

lemma findKNearest_sound:
  assumes "findKNearest qv m n th now = Inr rs" and "r \<in> set rs"
  shows "th \<le> similarity r \<and>
     (\<exists>e\<in>snd ` set m. \<not> expiresAt e < now \<and>
        cosineSimilarity qv (embedding e) = Inr (similarity r) \<and>
        result_key r = key e \<and> result_value r = entry_value e)"
proof -
  from findKNearest_Inr[OF assms(1)] obtain xs where
    xs: "scan qv (map snd m) th now [] = Inr xs" and rs: "rs = slice0 (sort_desc xs) n"
    by blast
  have "set rs \<subseteq> set xs"
    unfolding rs slice0_def using set_take_subset[of _ "sort_desc xs"]
    by (auto simp: set_sort_desc)
  with assms(2) have "r \<in> set xs" by blast
  from scan_sound[OF xs this] show ?thesis by auto
qed

lemma findKNearest_length:
  assumes "findKNearest qv m n th now = Inr rs" and "0 \<le> n"
  shows "int (length rs) \<le> n"
proof -
  from findKNearest_Inr[OF assms(1)] obtain xs where
    rs: "rs = slice0 (sort_desc xs) n" by blast
  show ?thesis unfolding rs slice0_nonneg[OF assms(2)] using assms(2) by simp
qed

lemma findKNearest_sorted:
  assumes "findKNearest qv m n th now = Inr rs" and "0 \<le> n"
  shows "sorted_wrt (\<lambda>a b. similarity b \<le> similarity a) rs"
proof -
  from findKNearest_Inr[OF assms(1)] obtain xs where
    rs: "rs = slice0 (sort_desc xs) n" by blast
  show ?thesis unfolding rs slice0_nonneg[OF assms(2)]
    using sorted_sort_desc[of xs] by (rule sorted_wrt_take)
qed

lemma findKNearest_top:
  assumes "findKNearest qv m n th now = Inr rs" and "0 \<le> n"
    and "e \<in> snd ` set m" and "\<not> expiresAt e < now"
    and "cosineSimilarity qv (embedding e) = Inr sim" and "th \<le> sim"
  shows "\<lparr>result_key = key e, result_value = entry_value e, similarity = sim\<rparr> \<in> set rs \<or>
     (int (length rs) = n \<and> (\<forall>r\<in>set rs. sim \<le> similarity r))"
proof -
  let ?x = "\<lparr>result_key = key e, result_value = entry_value e, similarity = sim\<rparr>"
  from findKNearest_Inr[OF assms(1)] obtain xs where
    xs: "scan qv (map snd m) th now [] = Inr xs" and rs: "rs = slice0 (sort_desc xs) n"
    by blast
  from assms(3) have "e \<in> set (map snd m)" by simp
  from scan_complete[OF xs this assms(4,5,6)] have "?x \<in> set (sort_desc xs)"
    by (simp add: set_sort_desc)
  from top_k[OF sorted_sort_desc this, of "nat n"] assms(2)
  show ?thesis unfolding rs slice0_nonneg[OF assms(2)] by auto
qed

lemma findKNearest_returns:
  assumes "\<forall>e\<in>snd ` set m. \<not> expiresAt e < now \<longrightarrow> length (embedding e) = length qv"
  shows "\<exists>rs. findKNearest qv m n th now = Inr rs"
proof -
  from assms have "\<forall>e\<in>set (map snd m). \<not> expiresAt e < now \<longrightarrow> length (embedding e) = length qv"
    by simp
  from scan_returns[OF this, of th "[]"] show ?thesis
    by (auto simp: findKNearest_def)
qed

text \<open>
  Claim C3. Let \<open>getSimilar\<close> return \<open>rs\<close> for a query whose vector is \<open>qv\<close>, a
  positive result count \<open>k\<close> and the effective threshold \<open>t\<close>. Every result comes from
  a live entry, carries that entry's cosine similarity to \<open>qv\<close>, and this similarity is at
  least \<open>t\<close>; there are at most \<open>k\<close> results, in descending order of similarity; and
  every live entry that reaches the threshold either is among the results or is at most
  as similar as each of the \<open>k\<close> results. All of this holds for any threshold, hence
  for \<open>t = 0\<close>.
\<close>

theorem C3_getSimilar_threshold_top_k:
  assumes res: "fst (getSimilar q k_opt th_opt now s) = Inr rs"
    and qv: "(case q of Text text \<Rightarrow> embedFn (config s) text | Vector v \<Rightarrow> Inr v) = Inr qv"
    and k: "k = (case k_opt of None \<Rightarrow> 5 | Some n \<Rightarrow> n)" "0 < k"
    and t: "t = (case th_opt of None \<Rightarrow> similarityThreshold (config s) | Some th \<Rightarrow> th)"
  shows "(\<forall>r\<in>set rs. t \<le> similarity r \<and>
            (\<exists>e\<in>snd ` set (entries s). \<not> expiresAt e < now \<and>
               cosineSimilarity qv (embedding e) = Inr (similarity r) \<and>
               result_key r = key e \<and> result_value r = entry_value e)) \<and>
         int (length rs) \<le> k \<and>
         sorted_wrt (\<lambda>a b. similarity b \<le> similarity a) rs \<and>
         (\<forall>e\<in>snd ` set (entries s). \<forall>sim.
            \<not> expiresAt e < now \<and> cosineSimilarity qv (embedding e) = Inr sim \<and> t \<le> sim \<longrightarrow>
            \<lparr>result_key = key e, result_value = entry_value e, similarity = sim\<rparr> \<in> set rs \<or>
            (int (length rs) = k \<and> (\<forall>r\<in>set rs. sim \<le> similarity r)))"
proof -
  from res qv k(1) t have f: "findKNearest qv (entries s) k t now = Inr rs"
    unfolding fst_getSimilar by simp
  from k(2) have k0: "0 \<le> k" by simp
  show ?thesis
    using findKNearest_sound[OF f] findKNearest_length[OF f k0] findKNearest_sorted[OF f k0]
      findKNearest_top[OF f k0]
    by blast
qed

theorem C3_getSimilar_threshold_top_k_witness:
  "fst (getSimilar (Vector [1, 0]) (Some 1) (Some 0) 5 ex_two) =
     Inr [\<lparr>result_key = ''a'', result_value = 7, similarity = 1\<rparr>] \<and>
   (0::int) < 1 \<and>
   (0::real) \<le> similarity \<lparr>result_key = ''a'', result_value = 7::nat, similarity = 1\<rparr> \<and>
   int (length [\<lparr>result_key = ''a'', result_value = 7::nat, similarity = 1\<rparr>]) \<le> 1"
proof -
  let ?r = "\<lparr>result_key = ''a'', result_value = 7::nat, similarity = 1\<rparr>"
  have res: "fst (getSimilar (Vector [1, 0]) (Some 1) (Some 0) 5 ex_two) = Inr [?r]"
    unfolding fst_getSimilar ex_two_entries by (simp add: op_defs)
  have qv: "(case Vector [1, 0] of Text text \<Rightarrow> embedFn (config ex_two) text | Vector v \<Rightarrow> Inr v)
      = Inr [1, 0]" by simp
  have k: "(1::int) = (case Some 1 of None \<Rightarrow> 5 | Some n \<Rightarrow> n)" "(0::int) < 1" by simp_all
  have t: "(0::real) = (case Some 0 of None \<Rightarrow> similarityThreshold (config ex_two) | Some th \<Rightarrow> th)"
    by simp
  from C3_getSimilar_threshold_top_k[OF res qv k t] res show ?thesis by simp
qed

text \<open>The search returns whenever every live vector has the length of the query.\<close>

lemma getSimilar_returns:
  assumes "(case q of Text text \<Rightarrow> embedFn (config s) text | Vector v \<Rightarrow> Inr v) = Inr qv"
    and "\<forall>e\<in>snd ` set (entries s). \<not> expiresAt e < now \<longrightarrow> length (embedding e) = length qv"
  shows "\<exists>rs. fst (getSimilar q k_opt th_opt now s) = Inr rs"
  unfolding fst_getSimilar using assms(1) findKNearest_returns[OF assms(2)] by simp

section \<open>Non-positive result counts\<close>

lemma getSimilar_k_zero:
  assumes "fst (getSimilar q (Some 0) th_opt now s) = Inr rs"
  shows "rs = []"
  using assms unfolding fst_getSimilar
  by (auto simp: findKNearest_def slice0_zero split: sum.splits)


text \<open>
  Claim C7. A result count \<open>k \<le> 0\<close> should give an empty result. For \<open>k = 0\<close> it
  does (\<open>getSimilar_k_zero\<close>); for a negative \<open>k\<close> the call \<open>slice(0, k)\<close> drops the
  last \<open>-k\<close> results instead. With two live entries of similarity 1 and 0 to the query,
  threshold 0 and \<open>k = -1\<close>, \<open>getSimilar\<close> returns the first of them.
\<close>

theorem C7_negative_k_nonempty:
  "fst (getSimilar (Vector [1, 0]) (Some (- 1)) (Some 0) 5 ex_two) =
     Inr [\<lparr>result_key = ''a'', result_value = 7, similarity = 1\<rparr>]"
  unfolding fst_getSimilar ex_two_entries by (simp add: op_defs)

section \<open>Vector lengths in reachable states\<close>

lemma set_map_delete_subset: "set (map_delete k m) \<subseteq> set m"
  by (induction m) (auto split: if_splits)

lemma set_map_set_subset: "set (map_set k e m) \<subseteq> insert (k, e) (set m)"
  by (induction m) (auto split: if_splits)

lemma set_evictOldest_subset: "set (evictOldest m) \<subseteq> set m"
  using set_map_delete_subset[of _ m]
  by (auto simp: evictOldest_def split: option.splits)

lemma length_embed_loop: "length (embed_loop cs i d vec) = length vec"
proof (induction cs i d vec rule: embed_loop.induct)
  case (1 i dimension vec)
  then show ?case by simp
next
  case (2 c cs i dimension vec)
  from "2.IH"[OF refl] show ?case by (simp add: Let_def)
qed

lemma length_normalize: "length (normalize vec) = length vec"
  by (simp add: normalize_def Let_def)

lemma length_defaultEmbedding:
  "defaultEmbedding text d = Inr vec \<Longrightarrow> int (length vec) = d"
  by (auto simp: defaultEmbedding_def length_normalize length_embed_loop split: if_splits)

lemma config_apply_operation: "config (apply_operation op now s) = config s"
  by (cases op)
    (auto simp: get_def has_def delete_def clear_def set_cache_def getSimilar_def Let_def
      split: option.splits sum.splits if_splits query.splits)

lemma config_run: "config (run ops s) = config s"
proof (induction ops arbitrary: s)
  case Nil
  then show ?case by simp
next
  case (Cons p ops)
  then show ?case by (cases p) (simp add: config_apply_operation)
qed

lemma set_cache_cases:
  "(\<exists>err. set_cache k v emb now s = (Inl err, s)) \<or>
   (\<exists>vec m. (emb = Some vec \<and> int (length vec) = embeddingDimension (config s) \<or>
              emb = None \<and> embedFn (config s) k = Inr vec) \<and>
      set m \<subseteq> set (entries s) \<and>
      set_cache k v emb now s =
        (Inr (), s\<lparr>entries := map_set k \<lparr>key = k, entry_value = v, embedding = vec,
              timestamp = now, expiresAt = now + ttl (config s)\<rparr> m\<rparr>))"
proof -
  define m where "m = (if int (length (entries s)) \<ge> maxSize (config s) \<and> \<not> map_has k (entries s)
                   then evictOldest (entries s) else entries s)"
  have sub: "set m \<subseteq> set (entries s)"
    using set_evictOldest_subset[of "entries s"] by (simp add: m_def)
  show ?thesis
  proof (cases emb)
    case None
    show ?thesis
    proof (cases "embedFn (config s) k")
      case (Inl err)
      with None show ?thesis by (simp add: set_cache_def)
    next
      case (Inr vec)
      with None have "set_cache k v emb now s =
        (Inr (), s\<lparr>entries := map_set k \<lparr>key = k, entry_value = v, embedding = vec,
              timestamp = now, expiresAt = now + ttl (config s)\<rparr> m\<rparr>)"
        by (simp add: set_cache_def Let_def m_def)
      with None Inr sub show ?thesis by blast
    qed
  next
    case (Some vec)
    show ?thesis
    proof (cases "int (length vec) = embeddingDimension (config s)")
      case False
      with Some show ?thesis by (simp add: set_cache_def)
    next
      case True
      with Some have "set_cache k v emb now s =
        (Inr (), s\<lparr>entries := map_set k \<lparr>key = k, entry_value = v, embedding = vec,
              timestamp = now, expiresAt = now + ttl (config s)\<rparr> m\<rparr>)"
        by (simp add: set_cache_def Let_def m_def)
      with Some True sub show ?thesis by blast
    qed
  qed
qed

lemma set_cache_entries_subset:
  assumes "p \<in> set (entries (snd (set_cache k v emb now s)))"
  shows "p \<in> set (entries s) \<or>
     (\<exists>vec. (emb = Some vec \<and> int (length vec) = embeddingDimension (config s) \<or>
             emb = None \<and> embedFn (config s) k = Inr vec) \<and> embedding (snd p) = vec)"
proof -
  from set_cache_cases[of k v emb now s]
  consider (fail) err where "set_cache k v emb now s = (Inl err, s)"
    | (ok) vec m where
        "emb = Some vec \<and> int (length vec) = embeddingDimension (config s) \<or>
         emb = None \<and> embedFn (config s) k = Inr vec"
        "set m \<subseteq> set (entries s)"
        "set_cache k v emb now s =
          (Inr (), s\<lparr>entries := map_set k \<lparr>key = k, entry_value = v, embedding = vec,
              timestamp = now, expiresAt = now + ttl (config s)\<rparr> m\<rparr>)"
    by blast
  then show ?thesis
  proof cases
    case fail
    with assms show ?thesis by simp
  next
    case ok
    let ?e = "\<lparr>key = k, entry_value = v, embedding = vec, timestamp = now,
                 expiresAt = now + ttl (config s)\<rparr>"
    from assms ok(3) have "p \<in> set (map_set k ?e m)" by simp
    with set_map_set_subset[of k ?e m] ok(2) have "p \<in> set (entries s) \<or> p = (k, ?e)"
      by auto
    with ok(1) show ?thesis by auto
  qed
qed

lemma apply_operation_invariant:
  assumes good: "\<forall>text vec. embedFn (config s) text = Inr vec \<longrightarrow>
      int (length vec) = embeddingDimension (config s)"
    and inv: "\<forall>p\<in>set (entries s). int (length (embedding (snd p))) = embeddingDimension (config s)"
  shows "\<forall>p\<in>set (entries (apply_operation op now s)).
      int (length (embedding (snd p))) = embeddingDimension (config s)"
proof (cases op)
  case (Get k)
  then show ?thesis using inv set_map_delete_subset[of k "entries s"]
    by (auto simp: get_def split: option.splits)
next
  case (Set k v emb)
  show ?thesis
  proof
    fix p assume "p \<in> set (entries (apply_operation op now s))"
    with Set have "p \<in> set (entries (snd (set_cache k v emb now s)))" by simp
    from set_cache_entries_subset[OF this] good inv
    show "int (length (embedding (snd p))) = embeddingDimension (config s)" by auto
  qed
next
  case (GetSimilar q k_opt th_opt)
  then show ?thesis using inv by (simp add: getSimilar_entries)
next
  case (Has k)
  then show ?thesis using inv set_map_delete_subset[of k "entries s"]
    by (auto simp: has_def split: option.splits)
next
  case (Delete k)
  then show ?thesis using inv set_map_delete_subset[of k "entries s"]
    by (auto simp: delete_def)
next
  case Clear
  then show ?thesis by (simp add: clear_def)
qed

lemma run_invariant:
  assumes "\<forall>text vec. embedFn (config s) text = Inr vec \<longrightarrow>
      int (length vec) = embeddingDimension (config s)"
    and "\<forall>p\<in>set (entries s). int (length (embedding (snd p))) = embeddingDimension (config s)"
  shows "\<forall>p\<in>set (entries (run ops s)).
      int (length (embedding (snd p))) = embeddingDimension (config s)"
  using assms
proof (induction ops arbitrary: s)
  case Nil
  then show ?case by simp
next
  case (Cons x ops)
  obtain op now where x: "x = (op, now)" by (cases x)
  let ?s' = "apply_operation op now s"
  have c: "config ?s' = config s" by (rule config_apply_operation)
  have inv': "\<forall>p\<in>set (entries ?s'). int (length (embedding (snd p))) = embeddingDimension (config ?s')"
    using apply_operation_invariant[OF Cons.prems(1) Cons.prems(2), of op now] c by simp
  have good': "\<forall>text vec. embedFn (config ?s') text = Inr vec \<longrightarrow>
      int (length vec) = embeddingDimension (config ?s')"
    using Cons.prems(1) c by simp
  from Cons.IH[OF good' inv'] x c show ?case by simp
qed

lemma constructor_default_embedFn:
  assumes "Option.bind cfg embedFn_opt = None"
    and "embedFn (config (constructor cfg :: 'v SemanticCache)) text = Inr vec"
  shows "int (length vec) = embeddingDimension (config (constructor cfg :: 'v SemanticCache))"
  using assms by (auto simp: constructor_def dest: length_defaultEmbedding)

text \<open>
  Claim C9, as the code has it. A supplied vector is checked against the configured
  dimension and the default embedding function returns vectors of that length, but the
  result of a custom embedding function is stored unchecked. So: if the cache uses the
  default embedding function, or a custom one that only returns vectors of the configured
  length, then in every state reached from the constructor by any sequence of operations
  every stored entry's vector has exactly that length.
\<close>

theorem C9_vector_length_invariant:
  fixes ops :: "('v operation \<times> int) list"
  assumes "Option.bind cfg embedFn_opt = None \<or>
     (\<forall>text vec. embedFn (config (constructor cfg :: 'v SemanticCache)) text = Inr vec \<longrightarrow>
        int (length vec) = embeddingDimension (config (constructor cfg :: 'v SemanticCache)))"
  shows "\<forall>p\<in>set (entries (run ops (constructor cfg))).
     int (length (embedding (snd p))) = embeddingDimension (config (run ops (constructor cfg)))"
proof -
  let ?s = "constructor cfg :: 'v SemanticCache"
  have good: "\<forall>text vec. embedFn (config ?s) text = Inr vec \<longrightarrow>
        int (length vec) = embeddingDimension (config ?s)"
    using assms constructor_default_embedFn[of cfg] by blast
  have inv: "\<forall>p\<in>set (entries ?s). int (length (embedding (snd p))) = embeddingDimension (config ?s)"
    by (simp add: constructor_def)
  from run_invariant[OF good inv, of ops] show ?thesis by (simp add: config_run)
qed

theorem C9_vector_length_invariant_witness:
  "embedFn (config ex_cache) ''a'' = Inr [1, 0] \<and>
   embeddingDimension (config ex_cache) = 2 \<and>
   entries ex_two =
     [(''a'', \<lparr>key = ''a'', entry_value = 7, embedding = [1, 0], timestamp = 0, expiresAt = 10\<rparr>),
      (''b'', \<lparr>key = ''b'', entry_value = 8, embedding = [0, 1], timestamp = 0, expiresAt = 10\<rparr>)] \<and>
   int (length [1::real, 0]) = embeddingDimension (config ex_two) \<and>
   int (length [0::real, 1]) = embeddingDimension (config ex_two)"
proof -
  have h: "\<forall>text vec. embedFn (config (constructor (Some ex_config) :: nat SemanticCache)) text = Inr vec \<longrightarrow>
      int (length vec) = embeddingDimension (config (constructor (Some ex_config) :: nat SemanticCache))"
    by (auto simp: ex_defs)
  have c: "embedFn (config ex_cache) ''a'' = Inr [1, 0]" "embeddingDimension (config ex_cache) = 2"
    by (simp_all add: ex_defs)
  from C9_vector_length_invariant[of "Some ex_config",
      where ops = "[(Set ''a'' (7::nat) None, 0), (Set ''b'' 8 (Some [0, 1]), 0)]"] h
  have "\<forall>p\<in>set (entries ex_two). int (length (embedding (snd p))) = embeddingDimension (config ex_two)"
    unfolding ex_two_def ex_cache_def by blast
  with c ex_two_entries show ?thesis by simp
qed

text \<open>
  With a custom embedding function the claim fails: the function of \<open>ex_short\<close> returns
  \<open>[1]\<close> for dimension 2, and \<open>set('a', 7)\<close> stores that vector.
\<close>

theorem C9_custom_embedFn_counterexample:
  "entries (run [(Set ''a'' 7 None, 0)] ex_short) =
     [(''a'', \<lparr>key = ''a'', entry_value = 7, embedding = [1], timestamp = 0, expiresAt = 10\<rparr>)] \<and>
   embeddingDimension (config (run [(Set ''a'' 7 None, 0)] ex_short)) = 2"
  by (simp add: ex_defs op_defs)



section \<open>Purging on access\<close>

lemma ex_one_entries:
  "entries ex_one =
     [(''a'', \<lparr>key = ''a'', entry_value = 7, embedding = [1, 0], timestamp = 0, expiresAt = 10\<rparr>)]"
  by (simp add: ex_defs op_defs)

lemma get_live_keeps_entries:
  assumes "map_get k (entries s) = Some entry" and "\<not> expiresAt entry < now"
  shows "entries (snd (get k now s)) = entries s" and "entries (snd (has k now s)) = entries s"
  using assms by (simp_all add: get_def has_def)

text \<open>Keys are unique in every state reached from the constructor.\<close>

lemma distinct_evictOldest: "distinct (map fst m) \<Longrightarrow> distinct (map fst (evictOldest m))"
  by (simp add: evictOldest_def distinct_map_delete split: option.splits)

lemma distinct_apply_operation:
  assumes "distinct (map fst (entries s))"
  shows "distinct (map fst (entries (apply_operation op now s)))"
proof (cases op)
  case (Get k)
  with assms show ?thesis by (simp add: get_def distinct_map_delete split: option.splits)
next
  case (Set k v emb)
  from set_cache_cases[of k v emb now s]
  consider (fail) err where "set_cache k v emb now s = (Inl err, s)"
    | (ok) vec where "\<exists>m. distinct (map fst m) \<and> entries (snd (set_cache k v emb now s)) =
          map_set k \<lparr>key = k, entry_value = v, embedding = vec, timestamp = now,
                      expiresAt = now + ttl (config s)\<rparr> m"
    using assms distinct_evictOldest[OF assms]
    by (auto simp: set_cache_def Let_def split: option.splits sum.splits if_splits)
  then show ?thesis
  proof cases
    case fail
    with Set assms show ?thesis by simp
  next
    case ok
    with Set show ?thesis by (auto simp: distinct_map_set)
  qed
next
  case (GetSimilar q k_opt th_opt)
  with assms show ?thesis by (simp add: getSimilar_entries)
next
  case (Has k)
  with assms show ?thesis by (simp add: has_def distinct_map_delete split: option.splits)
next
  case (Delete k)
  with assms show ?thesis by (simp add: delete_def distinct_map_delete)
next
  case Clear
  then show ?thesis by (simp add: clear_def)
qed

lemma distinct_run:
  "distinct (map fst (entries s)) \<Longrightarrow> distinct (map fst (entries (run ops s)))"
proof (induction ops arbitrary: s)
  case Nil
  then show ?case by simp
next
  case (Cons x ops)
  obtain op now where x: "x = (op, now)" by (cases x)
  from Cons.IH[OF distinct_apply_operation[OF Cons.prems, of op now]] x show ?case by simp
qed

lemma distinct_reachable: "distinct (map fst (entries (run ops (constructor cfg))))"
  by (rule distinct_run) (simp add: constructor_def)

text \<open>
  Claim C8, as the code has it. \<open>get\<close> and \<open>has\<close> on a key whose entry has
  \<open>expiresAt < now\<close> delete that entry: the store holds one entry fewer and, keys being
  unique, the key is no longer stored. \<open>getSimilar\<close> skips expired entries and never
  changes the stored entries.
\<close>

theorem C8_access_purges_expired:
  assumes "map_get k (entries s) = Some entry" and "expiresAt entry < now"
  shows "entries (snd (get k now s)) = map_delete k (entries s) \<and>
     entries (snd (has k now s)) = map_delete k (entries s) \<and>
     length (entries (snd (get k now s))) + 1 = length (entries s) \<and>
     length (entries (snd (has k now s))) + 1 = length (entries s) \<and>
     (distinct (map fst (entries s)) \<longrightarrow>
        \<not> map_has k (entries (snd (get k now s))) \<and> \<not> map_has k (entries (snd (has k now s)))) \<and>
     entries (snd (getSimilar q k_opt th_opt now s)) = entries s"
proof -
  from assms(1) have "map_of (entries s) k \<noteq> None" by (simp add: map_get_def)
  from length_map_delete_present[OF this]
  have len: "Suc (length (map_delete k (entries s))) = length (entries s)" .
  show ?thesis
    using get_expired[OF assms] has_expired[OF assms] len
    by (simp add: getSimilar_entries map_has_def map_of_map_delete_same)
qed

theorem C8_access_purges_expired_witness:
  "map_get ''a'' (entries ex_two) =
     Some \<lparr>key = ''a'', entry_value = 7, embedding = [1, 0], timestamp = 0, expiresAt = 10\<rparr> \<and>
   expiresAt \<lparr>key = ''a'', entry_value = 7::nat, embedding = [1, 0], timestamp = 0, expiresAt = 10\<rparr> < 11 \<and>
   distinct (map fst (entries ex_two)) \<and>
   entries (snd (get ''a'' 11 ex_two)) =
     [(''b'', \<lparr>key = ''b'', entry_value = 8, embedding = [0, 1], timestamp = 0, expiresAt = 10\<rparr>)] \<and>
   entries (snd (has ''a'' 11 ex_two)) =
     [(''b'', \<lparr>key = ''b'', entry_value = 8, embedding = [0, 1], timestamp = 0, expiresAt = 10\<rparr>)] \<and>
   length (entries (snd (get ''a'' 11 ex_two))) + 1 = length (entries ex_two) \<and>
   length (entries (snd (has ''a'' 11 ex_two))) + 1 = length (entries ex_two) \<and>
   \<not> map_has ''a'' (entries (snd (get ''a'' 11 ex_two))) \<and>
   \<not> map_has ''a'' (entries (snd (has ''a'' 11 ex_two))) \<and>
   entries (snd (getSimilar (Vector [1, 0]) None None 11 ex_two)) = entries ex_two"
proof -
  let ?e = "\<lparr>key = ''a'', entry_value = 7::nat, embedding = [1, 0], timestamp = 0, expiresAt = 10\<rparr>"
  have h1: "map_get ''a'' (entries ex_two) = Some ?e" by (simp add: ex_two_entries map_get_def)
  have h2: "expiresAt ?e < 11" by simp
  have d: "distinct (map fst (entries ex_two))" by (simp add: ex_two_entries)
  have del: "map_delete ''a'' (entries ex_two) =
     [(''b'', \<lparr>key = ''b'', entry_value = 8, embedding = [0, 1], timestamp = 0, expiresAt = 10\<rparr>)]"
    by (simp add: ex_two_entries)
  have len: "length (entries ex_two) = 2" by (simp add: ex_two_entries)
  from C8_access_purges_expired[OF h1 h2, of "Vector [1, 0]" None None] h1 d del len
  show ?thesis by (simp add: map_has_def)
qed

text \<open>
  The claim fails in two ways on the entry of \<open>ex_one\<close>, which has \<open>expiresAt = 10\<close>.
  At time 11 the entry has expired, a similarity scan returns nothing and the entry is
  still stored. At time 10, where \<open>now = expiresAt\<close>, \<open>get\<close> and \<open>has\<close> still find
  the entry and leave it stored.
\<close>

theorem C8_getSimilar_keeps_expired_counterexample:
  "entries ex_one =
     [(''a'', \<lparr>key = ''a'', entry_value = 7, embedding = [1, 0], timestamp = 0, expiresAt = 10\<rparr>)] \<and>
   fst (getSimilar (Vector [1, 0]) None None 11 ex_one) = Inr [] \<and>
   entries (snd (getSimilar (Vector [1, 0]) None None 11 ex_one)) = entries ex_one \<and>
   length (entries (snd (getSimilar (Vector [1, 0]) None None 11 ex_one))) = 1 \<and>
   fst (get ''a'' 10 ex_one) = Some 7 \<and>
   entries (snd (get ''a'' 10 ex_one)) = entries ex_one \<and>
   fst (has ''a'' 10 ex_one) = True \<and>
   entries (snd (has ''a'' 10 ex_one)) = entries ex_one"
  by (simp add: ex_defs op_defs)

section \<open>Eviction at capacity\<close>

lemma oldest_loop_keeps:
  assumes "\<forall>p\<in>set m. t \<le> timestamp (snd p)"
  shows "oldest_loop m (Some k, Some t) = (Some k, Some t)"
  using assms by (induction m) auto

lemma oldest_loop_first_min:
  assumes "\<forall>p\<in>set pre. timestamp e < timestamp (snd p)"
    and "\<forall>p\<in>set post. timestamp e \<le> timestamp (snd p)"
    and "case oldestTimestamp of None \<Rightarrow> True | Some t \<Rightarrow> timestamp e < t"
  shows "oldest_loop (pre @ (k, e) # post) (oldestKey, oldestTimestamp) = (Some k, Some (timestamp e))"
  using assms
proof (induction pre arbitrary: oldestKey oldestTimestamp)
  case Nil
  then show ?case by (simp add: oldest_loop_keeps)
next
  case (Cons x pre)
  obtain k1 e1 where x: "x = (k1, e1)" by (cases x)
  from Cons.prems(1) x have lt: "timestamp e < timestamp e1"
    and pre: "\<forall>p\<in>set pre. timestamp e < timestamp (snd p)" by simp_all
  show ?case
  proof (cases "case oldestTimestamp of None \<Rightarrow> True | Some t \<Rightarrow> timestamp e1 < t")
    case True
    have "case Some (timestamp e1) of None \<Rightarrow> True | Some t \<Rightarrow> timestamp e < t"
      using lt by simp
    from Cons.IH[OF pre Cons.prems(2) this, of "Some k1"] True x show ?thesis by simp
  next
    case False
    from Cons.IH[OF pre Cons.prems(2) Cons.prems(3), of oldestKey] False x show ?thesis by simp
  qed
qed

lemma first_min_exists:
  assumes "m \<noteq> []"
  shows "\<exists>pre k e post. m = pre @ (k, e) # post \<and>
     (\<forall>p\<in>set pre. timestamp e < timestamp (snd p)) \<and>
     (\<forall>p\<in>set post. timestamp e \<le> timestamp (snd p))"
  using assms
proof (induction m)
  case Nil
  then show ?case by simp
next
  case (Cons x m)
  obtain k1 e1 where x: "x = (k1, e1)" by (cases x)
  show ?case
  proof (cases "m = []")
    case True
    with x have "x # m = [] @ (k1, e1) # []" by simp
    then show ?thesis by (metis empty_iff empty_set)
  next
    case False
    from Cons.IH[OF this] obtain pre k e post where
      m: "m = pre @ (k, e) # post"
      and a: "\<forall>p\<in>set pre. timestamp e < timestamp (snd p)"
      and b: "\<forall>p\<in>set post. timestamp e \<le> timestamp (snd p)" by blast
    show ?thesis
    proof (cases "timestamp e1 \<le> timestamp e")
      case True
      have "x # m = [] @ (k1, e1) # m" using x by simp
      moreover have "\<forall>p\<in>set m. timestamp e1 \<le> timestamp (snd p)"
        using m a b True by auto
      ultimately show ?thesis by (metis empty_iff empty_set)
    next
      case False
      have "x # m = (x # pre) @ (k, e) # post" using m by simp
      moreover have "\<forall>p\<in>set (x # pre). timestamp e < timestamp (snd p)"
        using a x False by simp
      ultimately show ?thesis using b by blast
    qed
  qed
qed

lemma map_delete_split:
  "k \<notin> fst ` set pre \<Longrightarrow> map_delete k (pre @ (k, e) # post) = pre @ post"
  by (induction pre) auto

lemma map_set_absent: "map_of m k = None \<Longrightarrow> map_set k e m = m @ [(k, e)]"
  by (induction m) (auto split: if_splits)

lemma evictOldest_fifo:
  assumes "\<forall>p\<in>set pre. timestamp e < timestamp (snd p)"
    and "\<forall>p\<in>set post. timestamp e \<le> timestamp (snd p)"
    and "distinct (map fst (pre @ (k, e) # post))"
  shows "evictOldest (pre @ (k, e) # post) = (if k = [] then pre @ (k, e) # post else pre @ post)"
proof -
  have "case None of None \<Rightarrow> True | Some t \<Rightarrow> timestamp e < t" by simp
  from oldest_loop_first_min[OF assms(1,2) this, of k None]
  have o: "fst (oldest_loop (pre @ (k, e) # post) (None, None)) = Some k" by simp
  from assms(3) have "k \<notin> fst ` set pre" by auto
  from map_delete_split[OF this] o show ?thesis by (simp add: evictOldest_def)
qed

lemma map_of_append_None:
  "map_of (xs @ ys) k = None \<longleftrightarrow> map_of xs k = None \<and> map_of ys k = None"
  by (simp add: map_of_eq_None_iff image_Un)

lemma evict_then_insert:
  assumes new: "\<not> map_has k (pre @ (k0, e0) # post)"
    and pre: "\<forall>p\<in>set pre. timestamp e0 < timestamp (snd p)"
    and post: "\<forall>p\<in>set post. timestamp e0 \<le> timestamp (snd p)"
    and dist: "distinct (map fst (pre @ (k0, e0) # post))"
    and nonempty: "k0 \<noteq> []"
  shows "map_set k e (evictOldest (pre @ (k0, e0) # post)) = pre @ post @ [(k, e)]"
proof -
  from evictOldest_fifo[OF pre post dist] nonempty
  have ev: "evictOldest (pre @ (k0, e0) # post) = pre @ post" by simp
  from new have "map_of (pre @ (k0, e0) # post) k = None" by (simp add: map_has_def)
  then have "map_of pre k = None \<and> map_of post k = None"
    unfolding map_of_append_None by (simp split: if_splits)
  then have "map_of (pre @ post) k = None" by (simp add: map_of_append_None)
  from map_set_absent[OF this] ev show ?thesis by simp
qed

lemma run_append: "run (xs @ ys) s = run ys (run xs s)"
  by (induction xs arbitrary: s) auto

lemma set_cache_None_below:
  assumes "embedFn (config s) k = Inr vec" and "int (length (entries s)) < maxSize (config s)"
    and "\<not> map_has k (entries s)"
  shows "set_cache k v None now s =
     (Inr (), s\<lparr>entries := entries s @ [(k, \<lparr>key = k, entry_value = v, embedding = vec,
         timestamp = now, expiresAt = now + ttl (config s)\<rparr>)]\<rparr>)"
  using assms by (simp add: set_cache_def Let_def map_has_def map_set_absent)

lemma run_inserts_below_capacity:
  fixes s :: "'v SemanticCache"
  assumes "entries s = []" and "\<forall>text. embedFn (config s) text = Inr (vecs text)"
    and "distinct (map fst kvs)" and "int (length kvs) \<le> maxSize (config s)"
  shows "entries (run (map (\<lambda>(k, v, now). (Set k v None, now)) kvs) s) =
     map (\<lambda>(k, v, now). (k, \<lparr>key = k, entry_value = v, embedding = vecs k, timestamp = now,
                               expiresAt = now + ttl (config s)\<rparr>)) kvs"
  using assms(3,4)
proof (induction kvs rule: rev_induct)
  case Nil
  then show ?case using assms(1) by simp
next
  case (snoc x kvs)
  obtain k v now where x: "x = (k, v, now)" by (cases x)
  let ?ins = "\<lambda>(k, v, now). (Set k v None :: 'v operation, now :: int)"
  let ?E = "\<lambda>(k, v, now). (k, \<lparr>key = k, entry_value = v, embedding = vecs k, timestamp = now,
                               expiresAt = now + ttl (config s)\<rparr>)"
  let ?s' = "run (map ?ins kvs) s"
  from snoc.prems have d: "distinct (map fst kvs)" and l: "int (length kvs) \<le> maxSize (config s)"
    and knew: "k \<notin> fst ` set kvs" and lt: "int (length kvs) < maxSize (config s)"
    using x by auto
  from snoc.IH[OF d l] have ents: "entries ?s' = map ?E kvs" .
  have cfg: "config ?s' = config s" by (rule config_run)
  have "fst ` set (map ?E kvs) = fst ` set kvs" by force
  with knew have "map_of (map ?E kvs) k = None" by (simp add: map_of_eq_None_iff)
  with ents have new: "\<not> map_has k (entries ?s')" by (simp add: map_has_def)
  have emb: "embedFn (config ?s') k = Inr (vecs k)" using assms(2) cfg by simp
  have len: "int (length (entries ?s')) < maxSize (config ?s')" using ents cfg lt by simp
  from set_cache_None_below[OF emb len new, of v now] ents cfg x
  show ?case by (simp add: run_append)
qed


lemma set_cache_None_at_capacity:
  assumes emb: "embedFn (config s) k = Inr vec"
    and full: "maxSize (config s) \<le> int (length (entries s))" and new: "\<not> map_has k (entries s)"
    and ents: "entries s = pre @ (k0, e0) # post"
    and pre: "\<forall>p\<in>set pre. timestamp e0 < timestamp (snd p)"
    and post: "\<forall>p\<in>set post. timestamp e0 \<le> timestamp (snd p)"
    and dist: "distinct (map fst (entries s))"
    and nonempty: "k0 \<noteq> []"
  shows "set_cache k v None now s =
     (Inr (), s\<lparr>entries := pre @ post @ [(k, \<lparr>key = k, entry_value = v, embedding = vec,
         timestamp = now, expiresAt = now + ttl (config s)\<rparr>)]\<rparr>)"
proof -
  from new ents have n: "\<not> map_has k (pre @ (k0, e0) # post)" by simp
  from dist ents have d: "distinct (map fst (pre @ (k0, e0) # post))" by simp
  note ei = evict_then_insert[OF n pre post d nonempty]
  show ?thesis
    using emb full new ei ents by (simp add: set_cache_def Let_def)
qed

text \<open>
  Inserting \<open>maxSize + 1\<close> distinct non-empty keys into a fresh cache: the first
  \<open>maxSize\<close> inserts fill the store in order, the last one evicts the first entry of
  smallest timestamp and appends the new entry.
\<close>

lemma insert_beyond_capacity_fifo:
  fixes s :: "'v SemanticCache"
  assumes fresh: "entries s = []" and emb: "\<forall>text. embedFn (config s) text = Inr (vecs text)"
    and dist: "distinct (map fst (kvs @ [(k, v, now)]))"
    and cap: "maxSize (config s) = int (length kvs)" and ne: "kvs \<noteq> []"
    and nonempty: "[] \<notin> fst ` set kvs"
  shows "\<exists>pre k0 e0 post.
     map (\<lambda>(k, v, now). (k, \<lparr>key = k, entry_value = v, embedding = vecs k, timestamp = now,
                               expiresAt = now + ttl (config s)\<rparr>)) kvs = pre @ (k0, e0) # post \<and>
     (\<forall>p\<in>set pre. timestamp e0 < timestamp (snd p)) \<and>
     (\<forall>p\<in>set post. timestamp e0 \<le> timestamp (snd p)) \<and>
     entries (run (map (\<lambda>(k, v, now). (Set k v None, now)) (kvs @ [(k, v, now)])) s) =
       pre @ post @ [(k, \<lparr>key = k, entry_value = v, embedding = vecs k, timestamp = now,
                                expiresAt = now + ttl (config s)\<rparr>)] \<and>
     int (length (entries (run (map (\<lambda>(k, v, now). (Set k v None, now)) (kvs @ [(k, v, now)])) s)))
       = maxSize (config s)"
proof -
  let ?ins = "\<lambda>(k, v, now). (Set k v None :: 'v operation, now :: int)"
  let ?E = "\<lambda>(k, v, now). (k, \<lparr>key = k, entry_value = v, embedding = vecs k, timestamp = now,
                               expiresAt = now + ttl (config s)\<rparr>)"
  let ?s' = "run (map ?ins kvs) s"
  from dist have d: "distinct (map fst kvs)" and knew: "k \<notin> fst ` set kvs" by auto
  from cap have l: "int (length kvs) \<le> maxSize (config s)" by simp
  from run_inserts_below_capacity[OF fresh emb d l] have ents: "entries ?s' = map ?E kvs" .
  have cfg: "config ?s' = config s" by (rule config_run)
  have keys: "map fst (map ?E kvs) = map fst kvs" by (induction kvs) auto
  from ne have "map ?E kvs \<noteq> []" by simp
  from first_min_exists[OF this] obtain pre k0 e0 post where
    split: "map ?E kvs = pre @ (k0, e0) # post"
    and pre: "\<forall>p\<in>set pre. timestamp e0 < timestamp (snd p)"
    and post: "\<forall>p\<in>set post. timestamp e0 \<le> timestamp (snd p)" by blast
  have "k0 \<in> set (map fst (map ?E kvs))" unfolding split by simp
  then have "k0 \<in> fst ` set kvs" unfolding keys by simp
  with nonempty have k0: "k0 \<noteq> []" by blast
  have "fst ` set (map ?E kvs) = fst ` set kvs" using keys by (metis list.set_map)
  with knew have "map_of (map ?E kvs) k = None" by (simp add: map_of_eq_None_iff)
  with ents have new: "\<not> map_has k (entries ?s')" by (simp add: map_has_def)
  have e: "embedFn (config ?s') k = Inr (vecs k)" using emb cfg by simp
  have full: "maxSize (config ?s') \<le> int (length (entries ?s'))" using ents cfg cap by simp
  have dd: "distinct (map fst (entries ?s'))" unfolding ents keys by (rule d)
  have es: "entries ?s' = pre @ (k0, e0) # post" using ents split by simp
  from set_cache_None_at_capacity[OF e full new es pre post dd k0, of v now] cfg
  have res: "entries (run (map ?ins (kvs @ [(k, v, now)])) s) =
       pre @ post @ [(k, \<lparr>key = k, entry_value = v, embedding = vecs k, timestamp = now,
                                expiresAt = now + ttl (config s)\<rparr>)]"
    by (simp add: run_append)
  have "length (map ?E kvs) = length pre + length post + 1" unfolding split by simp
  then have "int (length (pre @ post @ [(k, \<lparr>key = k, entry_value = v, embedding = vecs k, timestamp = now,
                                expiresAt = now + ttl (config s)\<rparr>)])) = maxSize (config s)"
    using cap by simp
  with split pre post res show ?thesis by metis
qed

lemma ex_small_nonempty_key_evicted:
  "entries (run [(Set ''a'' 1 None, 0), (Set ''b'' 2 None, 1)] ex_small) =
     [(''b'', \<lparr>key = ''b'', entry_value = 2, embedding = [1, 0], timestamp = 1, expiresAt = 11\<rparr>)]"
  by (simp add: ex_defs op_defs)

text \<open>
  Claim C4. Inserting \<open>maxSize + 1\<close> distinct keys into a fresh cache should leave
  \<open>maxSize\<close> entries, the oldest one evicted. \<open>evictOldest\<close> finds the oldest key but
  deletes it only if it is truthy, so the empty key is never evicted: with capacity 1,
  \<open>set('', 1)\<close> at time 0 and \<open>set('b', 2)\<close> at time 1 leave two entries.
\<close>

theorem C4_empty_key_not_evicted:
  "maxSize (config ex_small) = 1 \<and>
   entries (run [(Set '''' 1 None, 0), (Set ''b'' 2 None, 1)] ex_small) =
     [('''', \<lparr>key = '''', entry_value = 1, embedding = [1, 0], timestamp = 0, expiresAt = 10\<rparr>),
      (''b'', \<lparr>key = ''b'', entry_value = 2, embedding = [1, 0], timestamp = 1, expiresAt = 11\<rparr>)] \<and>
   length (entries (run [(Set '''' 1 None, 0), (Set ''b'' 2 None, 1)] ex_small)) = 2"
  by (simp add: ex_defs op_defs)

end
